theory Spec2Isabelle
  imports Main "HOL-Library.Word"
begin

section \<open>JavaScript strings and buffers\<close>

text \<open>
  A JavaScript string is a sequence of UTF-16 code units, and \<^verbatim>\<open>s.length\<close> counts
  code units. A \<^verbatim>\<open>Buffer\<close> is a sequence of bytes.
\<close>

type_synonym jsstring = "16 word list"
type_synonym buffer = "8 word list"

text \<open>ASCII literals, for writing concrete paths and contents.\<close>

definition js :: "string \<Rightarrow> jsstring" where
  "js s = map (\<lambda>c. word_of_nat (of_char c)) s"

text \<open>
  \<^verbatim>\<open>Buffer.byteLength(s, 'utf-8')\<close>: the number of bytes of the UTF-8 encoding of \<open>s\<close>.
  A code unit below \<open>0x80\<close> takes one byte, below \<open>0x800\<close> two, a surrogate pair four, and
  every other unit (a lone surrogate is encoded as U+FFFD) three.
\<close>

fun byteLength :: "jsstring \<Rightarrow> nat" where
  "byteLength [] = 0"
| "byteLength (c # cs) =
     (if c < 0x80 then 1 + byteLength cs
      else if c < 0x800 then 2 + byteLength cs
      else if 0xD800 \<le> c \<and> c \<le> 0xDBFF then
        (case cs of
           [] \<Rightarrow> 3
         | d # ds \<Rightarrow> if 0xDC00 \<le> d \<and> d \<le> 0xDFFF then 4 + byteLength ds
                    else 3 + byteLength cs)
      else 3 + byteLength cs)"

section \<open>File entries and size-based batches (codebase.ts)\<close>

record FileEntry =
  file_path :: jsstring
  file_hash :: jsstring
  content :: jsstring

definition MAX_BATCH_BYTES :: nat where
  "MAX_BATCH_BYTES = 4 * 1024 * 1024"

definition MAX_FILE_SIZE :: nat where
  "MAX_FILE_SIZE = 512 * 1024"

text \<open>The size estimate of one entry, as computed inside the batching loop.\<close>

definition entrySize :: "FileEntry \<Rightarrow> nat" where
  "entrySize entry =
     byteLength (content entry) + length (file_path entry) + length (file_hash entry) + 100"

text \<open>
  The batching loop. Its state is the three variables \<^verbatim>\<open>batches\<close>, \<^verbatim>\<open>currentBatch\<close> and
  \<^verbatim>\<open>currentSize\<close>; \<^verbatim>\<open>push\<close> appends at the end.
\<close>

fun batchLoop ::
  "FileEntry list \<Rightarrow> FileEntry list list \<Rightarrow> FileEntry list \<Rightarrow> nat
     \<Rightarrow> FileEntry list list \<times> FileEntry list \<times> nat" where
  "batchLoop [] batches currentBatch currentSize = (batches, currentBatch, currentSize)"
| "batchLoop (entry # rest) batches currentBatch currentSize =
     (if length currentBatch > 0 \<and> currentSize + entrySize entry > MAX_BATCH_BYTES
      then batchLoop rest (batches @ [currentBatch]) [entry] (0 + entrySize entry)
      else batchLoop rest batches (currentBatch @ [entry]) (currentSize + entrySize entry))"

definition buildBatches :: "FileEntry list \<Rightarrow> FileEntry list list" where
  "buildBatches allEntries =
     (case batchLoop allEntries [] [] 0 of
        (batches, currentBatch, currentSize) \<Rightarrow>
          if length currentBatch > 0 then batches @ [currentBatch] else batches)"

text \<open>The estimated size of a batch: the sum of the estimates of its entries.\<close>

definition batchSize :: "FileEntry list \<Rightarrow> nat" where
  "batchSize batch = sum_list (map entrySize batch)"

text \<open>A batch is within the ceiling, or it is one entry that is over the ceiling by itself.\<close>

definition bounded_batch :: "FileEntry list \<Rightarrow> bool" where
  "bounded_batch batch \<longleftrightarrow>
     batchSize batch \<le> MAX_BATCH_BYTES \<or>
     (case batch of [entry] \<Rightarrow> entrySize entry > MAX_BATCH_BYTES | _ \<Rightarrow> False)"

text \<open>An entry that is over the ceiling by itself shares its batch with no other entry.\<close>

definition isolated_batch :: "FileEntry list \<Rightarrow> bool" where
  "isolated_batch batch \<longleftrightarrow>
     list_all (\<lambda>entry. entrySize entry \<le> MAX_BATCH_BYTES) batch \<or> length batch = 1"

section \<open>Paths (the \<^verbatim>\<open>path\<close> module on normalized absolute POSIX paths)\<close>

text \<open>
  A normalized absolute path is the list of its components. A directory entry name is one
  component, so \<^verbatim>\<open>path.join(dir, entry.name)\<close> appends it. \<^verbatim>\<open>path.relative(from, to)\<close>
  drops the common prefix, climbs out of what is left of \<open>from\<close> with \<^verbatim>\<open>..\<close> and joins
  the result with \<^verbatim>\<open>/\<close>.
\<close>

type_synonym path = "jsstring list"

definition path_join :: "path \<Rightarrow> jsstring \<Rightarrow> path" where
  "path_join dir name = dir @ [name]"

fun join_sep :: "jsstring list \<Rightarrow> jsstring" where
  "join_sep [] = []"
| "join_sep [c] = c"
| "join_sep (c # d # cs) = c @ js ''/'' @ join_sep (d # cs)"

fun strip_common :: "path \<Rightarrow> path \<Rightarrow> path \<times> path" where
  "strip_common (a # as) (b # bs) = (if a = b then strip_common as bs else (a # as, b # bs))"
| "strip_common as bs = (as, bs)"

definition path_relative :: "path \<Rightarrow> path \<Rightarrow> jsstring" where
  "path_relative from to =
     (case strip_common from to of
        (up, down) \<Rightarrow> join_sep (replicate (length up) (js ''..'') @ down))"

section \<open>The directory tree under the working directory\<close>

datatype fs_error = EACCES | ENOENT | ENOTDIR | EISDIR

text \<open>
  A regular file carries what \<^verbatim>\<open>fs.statSync\<close> gives for it (its size, or an error) and
  what \<^verbatim>\<open>fs.readFileSync\<close> gives (its bytes, or an error). A directory carries its listing
  in the order \<^verbatim>\<open>fs.readdirSync\<close> returns it, or the error \<^verbatim>\<open>readdirSync\<close> raises.
  \<open>Other\<close> is an entry that is neither a regular file nor a directory (a symbolic link,
  a socket, a device).
\<close>

datatype fsnode =
    RegularFile "fs_error + nat" "fs_error + buffer"
  | Directory "(jsstring \<times> fsnode) list"
  | UnreadableDirectory fs_error
  | Other

fun isDirectory :: "fsnode \<Rightarrow> bool" where
  "isDirectory (Directory entries) = True"
| "isDirectory (UnreadableDirectory err) = True"
| "isDirectory node = False"

fun isFile :: "fsnode \<Rightarrow> bool" where
  "isFile (RegularFile st bytes) = True"
| "isFile node = False"

text \<open>The walk calls \<^verbatim>\<open>statSync\<close> on regular files only, and reads only the size.\<close>

fun statSync :: "fsnode \<Rightarrow> fs_error + nat" where
  "statSync (RegularFile st bytes) = st"
| "statSync node = Inr 0"

text \<open>The file system calls of a walk, in the order they are made.\<close>

datatype fs_call = Readdir path | Stat path

section \<open>The directory walk (\<^verbatim>\<open>walkDirectory\<close>, codebase.ts)\<close>

text \<open>
  \<open>walkDirectory node dir ig baseDir\<close> is the call \<^verbatim>\<open>walkDirectory(dir, ig, baseDir)\<close> where
  \<open>node\<close> is what the file system holds at \<open>dir\<close>. The ignore predicate \<open>ig\<close> is
  \<^verbatim>\<open>ig.ignores\<close>. An exception of \<^verbatim>\<open>readdirSync\<close> or \<^verbatim>\<open>statSync\<close> is not caught in the
  function, so it ends the call and every enclosing call: the result is \<open>Inl\<close> of the error.
  \<open>walkEntries\<close> is the \<^verbatim>\<open>for\<close> loop over the listing, with the array \<^verbatim>\<open>files\<close> as
  accumulator. The first component of the result is the list of file system calls made.
\<close>

fun walkDirectory ::
  "fsnode \<Rightarrow> path \<Rightarrow> (jsstring \<Rightarrow> bool) \<Rightarrow> path \<Rightarrow> fs_call list \<times> (fs_error + path list)"
and walkEntries ::
  "(jsstring \<times> fsnode) list \<Rightarrow> path \<Rightarrow> (jsstring \<Rightarrow> bool) \<Rightarrow> path \<Rightarrow> path list
     \<Rightarrow> fs_call list \<times> (fs_error + path list)" where
  "walkDirectory (Directory entries) dir ig baseDir =
     (case walkEntries entries dir ig baseDir [] of
        (calls, result) \<Rightarrow> (Readdir dir # calls, result))"
| "walkDirectory (UnreadableDirectory err) dir ig baseDir = ([Readdir dir], Inl err)"
| "walkDirectory (RegularFile st bytes) dir ig baseDir = ([Readdir dir], Inl ENOTDIR)"
| "walkDirectory Other dir ig baseDir = ([Readdir dir], Inl ENOTDIR)"
| "walkEntries [] dir ig baseDir files = ([], Inr files)"
| "walkEntries ((name, node) # rest) dir ig baseDir files =
     (let fullPath = path_join dir name;
          relativePath = path_relative baseDir fullPath
      in if ig relativePath then walkEntries rest dir ig baseDir files
         else if isDirectory node then
           (if \<not> ig (relativePath @ js ''/'') then
              (case walkDirectory node fullPath ig baseDir of
                 (calls, Inl err) \<Rightarrow> (calls, Inl err)
               | (calls, Inr found) \<Rightarrow>
                   (case walkEntries rest dir ig baseDir (files @ found) of
                      (calls', result) \<Rightarrow> (calls @ calls', result)))
            else walkEntries rest dir ig baseDir files)
         else if isFile node then
           (case statSync node of
              Inl err \<Rightarrow> ([Stat fullPath], Inl err)
            | Inr stat_size \<Rightarrow>
                (case walkEntries rest dir ig baseDir
                        (if stat_size \<le> MAX_FILE_SIZE then files @ [fullPath] else files) of
                   (calls, result) \<Rightarrow> (Stat fullPath # calls, result)))
         else walkEntries rest dir ig baseDir files)"

section \<open>Reading and admitting files (the \<^verbatim>\<open>index\<close> action, codebase.ts)\<close>

text \<open>
  \<^verbatim>\<open>fs.readFileSync(filePath)\<close> on the tree \<open>tree\<close> that the file system holds at \<open>baseDir\<close>:
  the path is resolved component by component, and the read gives what the regular file
  found there carries. The action reads only paths that the walk returned, which are
  regular files below \<open>baseDir\<close>; on anything else the read fails.
\<close>

fun lookup :: "fsnode \<Rightarrow> jsstring list \<Rightarrow> fsnode option" where
  "lookup node [] = Some node"
| "lookup (Directory entries) (name # names) =
     (case map_of entries name of
        None \<Rightarrow> None
      | Some node \<Rightarrow> lookup node names)"
| "lookup (UnreadableDirectory err) (name # names) = None"
| "lookup (RegularFile st bytes) (name # names) = None"
| "lookup Other (name # names) = None"

definition readFileSync :: "fsnode \<Rightarrow> path \<Rightarrow> path \<Rightarrow> fs_error + buffer" where
  "readFileSync tree baseDir filePath =
     (if take (length baseDir) filePath = baseDir then
        (case lookup tree (drop (length baseDir) filePath) of
           Some (RegularFile st bytes) \<Rightarrow> bytes
         | Some (Directory entries) \<Rightarrow> Inl EISDIR
         | Some (UnreadableDirectory err) \<Rightarrow> Inl EISDIR
         | Some Other \<Rightarrow> Inl EACCES
         | None \<Rightarrow> Inl ENOENT)
      else Inl ENOENT)"

text \<open>
  The functions of the runtime that the action calls on file contents:
  \<^verbatim>\<open>buf.toString('utf-8')\<close> and
  \<^verbatim>\<open>crypto.createHash('sha256').update(content).digest('hex')\<close>.
\<close>

record node_runtime =
  toString_utf8 :: "buffer \<Rightarrow> jsstring"
  sha256_hex :: "jsstring \<Rightarrow> jsstring"

text \<open>
  \<^verbatim>\<open>String.prototype.trim\<close> removes the white space and line terminator code units of
  ECMAScript from both ends.
\<close>

definition isWhiteSpace :: "16 word \<Rightarrow> bool" where
  "isWhiteSpace c \<longleftrightarrow>
     c \<in> {0x09, 0x0A, 0x0B, 0x0C, 0x0D, 0x20, 0xA0, 0x1680, 0x2028, 0x2029, 0x202F, 0x205F,
          0x3000, 0xFEFF} \<or> (0x2000 \<le> c \<and> c \<le> 0x200A)"

definition trim :: "jsstring \<Rightarrow> jsstring" where
  "trim s = rev (dropWhile isWhiteSpace (rev (dropWhile isWhiteSpace s)))"

text \<open>
  One iteration of the reading loop: \<open>None\<close> when the iteration leaves \<^verbatim>\<open>allEntries\<close> as it
  is (a \<^verbatim>\<open>continue\<close>, or an exception caught by the \<^verbatim>\<open>catch\<close> of the loop body), and
  \<open>Some\<close> of the entry it pushes otherwise.
\<close>

definition admitFile :: "node_runtime \<Rightarrow> fsnode \<Rightarrow> path \<Rightarrow> path \<Rightarrow> FileEntry option" where
  "admitFile rt tree baseDir filePath =
     (case readFileSync tree baseDir filePath of
        Inl err \<Rightarrow> None
      | Inr buf \<Rightarrow>
          if 0 \<in> set (take 8192 buf) then None
          else
            let content = toString_utf8 rt buf
            in if trim content = [] then None
               else
                 let hash = sha256_hex rt content;
                     relativePath = path_relative baseDir filePath
                 in Some \<lparr>file_path = relativePath, file_hash = hash, content = content\<rparr>)"

fun readEntries ::
  "node_runtime \<Rightarrow> fsnode \<Rightarrow> path \<Rightarrow> path list \<Rightarrow> FileEntry list \<Rightarrow> FileEntry list" where
  "readEntries rt tree baseDir [] allEntries = allEntries"
| "readEntries rt tree baseDir (filePath # rest) allEntries =
     (case admitFile rt tree baseDir filePath of
        None \<Rightarrow> readEntries rt tree baseDir rest allEntries
      | Some entry \<Rightarrow> readEntries rt tree baseDir rest (allEntries @ [entry]))"

section \<open>The global configuration file (config.ts)\<close>

record User =
  user_id :: nat
  user_name :: jsstring
  user_email :: jsstring

record GlobalConfig =
  apiUrl :: "jsstring option"
  token :: "jsstring option"
  user :: "User option"
  teamId :: "nat option"

text \<open>
  The state of the global configuration file: absent, present with a content that
  \<^verbatim>\<open>JSON.parse\<close> rejects, or present with a configuration object. Writing the file is
  taken to succeed.
\<close>

datatype config_file = NoFile | Unparsable | Stored GlobalConfig

definition emptyConfig :: GlobalConfig where
  "emptyConfig = \<lparr>apiUrl = None, token = None, user = None, teamId = None\<rparr>"

fun loadGlobalConfig :: "config_file \<Rightarrow> GlobalConfig" where
  "loadGlobalConfig (Stored config) = config"
| "loadGlobalConfig Unparsable = emptyConfig"
| "loadGlobalConfig NoFile = emptyConfig"

definition saveGlobalConfig :: "GlobalConfig \<Rightarrow> config_file \<Rightarrow> config_file" where
  "saveGlobalConfig config file = Stored config"

definition clearAuth :: "config_file \<Rightarrow> config_file" where
  "clearAuth file =
     (let config = loadGlobalConfig file
      in saveGlobalConfig (config\<lparr>token := None, user := None, teamId := None\<rparr>) file)"

text \<open>
  \<^verbatim>\<open>getToken\<close> and \<^verbatim>\<open>getTeamId\<close>. The empty string and the number 0 are falsy, so
  \<^verbatim>\<open>x || null\<close> is \<^verbatim>\<open>null\<close> for them. The first argument of \<open>getToken\<close> is the environment
  variable \<^verbatim>\<open>MEMO8_API_TOKEN\<close>.
\<close>

definition getToken :: "jsstring option \<Rightarrow> config_file \<Rightarrow> jsstring option" where
  "getToken env_token file =
     (case env_token of
        Some t \<Rightarrow> if t \<noteq> [] then Some t
                  else (case token (loadGlobalConfig file) of
                          Some t' \<Rightarrow> if t' \<noteq> [] then Some t' else None
                        | None \<Rightarrow> None)
      | None \<Rightarrow> (case token (loadGlobalConfig file) of
                   Some t' \<Rightarrow> if t' \<noteq> [] then Some t' else None
                 | None \<Rightarrow> None))"

definition getTeamId :: "config_file \<Rightarrow> nat option" where
  "getTeamId file =
     (case teamId (loadGlobalConfig file) of
        Some n \<Rightarrow> if n \<noteq> 0 then Some n else None
      | None \<Rightarrow> None)"

section \<open>The API client (\<^verbatim>\<open>createApiClient\<close>, api.ts)\<close>

record resp_data =
  data_message :: "jsstring option"
  data_errors :: "(jsstring \<times> jsstring list) list option"

record http_response =
  status :: nat
  data :: "resp_data option"

text \<open>
  The error object that the HTTP library passes to the error handler of the response
  interceptor: the handler reads \<^verbatim>\<open>error.code\<close>, \<^verbatim>\<open>error.response\<close> and
  \<^verbatim>\<open>error.message\<close>.
\<close>

record axios_error =
  code :: "jsstring option"
  response :: "http_response option"
  message :: jsstring

text \<open>
  The values a request can throw. \<open>ApiError message status data\<close> and
  \<open>ValidationError message errors\<close> are the classes of api.ts; neither has a property
  \<^verbatim>\<open>response\<close>. \<open>response_of\<close> is the property read \<^verbatim>\<open>err.response\<close>.
\<close>

datatype js_error =
    AxiosError axios_error
  | ApiError jsstring nat "resp_data option"
  | ValidationError jsstring "(jsstring \<times> jsstring list) list"

fun response_of :: "js_error \<Rightarrow> http_response option" where
  "response_of (AxiosError error) = response error"
| "response_of (ApiError msg st d) = None"
| "response_of (ValidationError msg errs) = None"

text \<open>The property \<^verbatim>\<open>status\<close> of an \<^verbatim>\<open>ApiError\<close> (422 for a \<^verbatim>\<open>ValidationError\<close>).\<close>

fun status_of :: "js_error \<Rightarrow> nat option" where
  "status_of (AxiosError error) = None"
| "status_of (ApiError msg st d) = Some st"
| "status_of (ValidationError msg errs) = Some 422"

text \<open>\<^verbatim>\<open>a || b\<close> on strings: the empty string and \<^verbatim>\<open>undefined\<close> are falsy.\<close>

fun or_else :: "jsstring option \<Rightarrow> jsstring \<Rightarrow> jsstring" where
  "or_else None b = b"
| "or_else (Some a) b = (if a \<noteq> [] then a else b)"

text \<open>
  The error handler of the response interceptor. It always throws; the result is the
  value thrown and the configuration file after the call.
\<close>

definition onResponseError :: "axios_error \<Rightarrow> config_file \<Rightarrow> js_error \<times> config_file" where
  "onResponseError error file =
     (if code error = Some (js ''ECONNREFUSED'') \<or> code error = Some (js ''ENOTFOUND'')
      then (ApiError (js ''Cannot connect to API. Is the server running?'') 0 None, file)
      else
        let st = map_option status (response error);
            d = (case response error of None \<Rightarrow> None | Some r \<Rightarrow> data r)
        in if st = Some 401
           then (ApiError (js ''Session expired. Please login again with: memo8 login'') 401 d,
                 clearAuth file)
           else if st = Some 422
           then (ValidationError
                   (or_else (case d of None \<Rightarrow> None | Some x \<Rightarrow> data_message x)
                      (js ''Validation failed''))
                   (case d of
                      None \<Rightarrow> []
                    | Some x \<Rightarrow> (case data_errors x of None \<Rightarrow> [] | Some errs \<Rightarrow> errs)),
                 file)
           else (ApiError
                   (or_else (case d of None \<Rightarrow> None | Some x \<Rightarrow> data_message x)
                      (or_else (Some (message error)) (js ''An unexpected error occurred'')))
                   (case st of None \<Rightarrow> 0 | Some n \<Rightarrow> n)
                   d,
                 file))"

text \<open>
  A request, with the two headers the request interceptor sets. The only endpoint of
  the indexing run is \<^verbatim>\<open>/projects/${projectId}/codebase/index\<close>.
\<close>

datatype url = CodebaseIndex nat

record request =
  url :: url
  authorization :: "jsstring option"
  x_team_id :: "nat option"
  body :: "FileEntry list"

definition onRequest :: "jsstring option \<Rightarrow> config_file \<Rightarrow> url \<Rightarrow> FileEntry list \<Rightarrow> request" where
  "onRequest env file u files =
     \<lparr>url = u,
      authorization = map_option (\<lambda>t. js ''Bearer '' @ t) (getToken env file),
      x_team_id = getTeamId file,
      body = files\<rparr>"

text \<open>
  The world of an indexing run: the environment variable \<^verbatim>\<open>MEMO8_API_TOKEN\<close>, the global
  configuration file, the state of the server, the requests sent so far, the working
  directory and the tree below it.
\<close>

record 's world =
  env_token :: "jsstring option"
  config :: config_file
  server :: 's
  sent :: "request list"
  cwd :: path
  tree :: fsnode

text \<open>
  The server, with the network and the HTTP library in front of it: from its state and
  a request, the response the library resolves with or the error it rejects with.
\<close>

type_synonym 's remote = "'s \<Rightarrow> request \<Rightarrow> (axios_error + http_response) \<times> 's"

definition api_post ::
  "'s remote \<Rightarrow> url \<Rightarrow> FileEntry list \<Rightarrow> 's world \<Rightarrow> (js_error + http_response) \<times> 's world" where
  "api_post srv u files w =
     (let req = onRequest (env_token w) (config w) u files
      in case srv (server w) req of
           (result, s') \<Rightarrow>
             let w' = w\<lparr>server := s', sent := sent w @ [req]\<rparr>
             in case result of
                  Inr resp \<Rightarrow> (Inr resp, w')
                | Inl error \<Rightarrow>
                    (case onResponseError error (config w') of
                       (err, file') \<Rightarrow> (Inl err, w'\<lparr>config := file'\<rparr>)))"

section \<open>Submitting the batches (the \<^verbatim>\<open>index\<close> action, codebase.ts)\<close>

text \<open>
  The submission loop, from batch \<open>i\<close> on; \<open>indexed\<close> is the counter of the loop. The result
  is \<open>Inl\<close> of the value thrown out of the loop, or \<open>Inr\<close> of the final counter.
\<close>

fun submitBatches ::
  "'s remote \<Rightarrow> nat \<Rightarrow> FileEntry list list \<Rightarrow> nat \<Rightarrow> 's world \<Rightarrow> (js_error + nat) \<times> 's world" where
  "submitBatches srv projectId [] indexed w = (Inr indexed, w)"
| "submitBatches srv projectId (batch # rest) indexed w =
     (case api_post srv (CodebaseIndex projectId) batch w of
        (Inr resp, w1) \<Rightarrow> submitBatches srv projectId rest (indexed + length batch) w1
      | (Inl err, w1) \<Rightarrow>
          let st = map_option status (response_of err)
          in if st = Some 413 \<and> length batch > 1 then
               let mid = (length batch + 1) div 2;
                   half1 = take mid batch;
                   half2 = drop mid batch
               in case api_post srv (CodebaseIndex projectId) half1 w1 of
                    (Inl err1, w2) \<Rightarrow> (Inl err1, w2)
                  | (Inr resp1, w2) \<Rightarrow>
                      (case api_post srv (CodebaseIndex projectId) half2 w2 of
                         (Inl err2, w3) \<Rightarrow> (Inl err2, w3)
                       | (Inr resp2, w3) \<Rightarrow>
                           submitBatches srv projectId rest (indexed + length batch) w3)
             else (Inl err, w1))"

text \<open>The walk and the reading loop of the action, on the tree of the world.\<close>

definition scanEntries ::
  "node_runtime \<Rightarrow> (jsstring \<Rightarrow> bool) \<Rightarrow> 's world \<Rightarrow> fs_error + FileEntry list" where
  "scanEntries rt ig w =
     (let baseDir = cwd w
      in case snd (walkDirectory (tree w) baseDir ig baseDir) of
           Inl err \<Rightarrow> Inl err
         | Inr filePaths \<Rightarrow> Inr (readEntries rt (tree w) baseDir filePaths []))"

section \<open>What the walk is expected to return\<close>

text \<open>
  The regular files below a node, each with its full path and its \<^verbatim>\<open>stat\<close> result, in
  listing order, depth first.
\<close>

fun treeFiles :: "fsnode \<Rightarrow> path \<Rightarrow> (path \<times> (fs_error + nat)) list"
and listFiles :: "(jsstring \<times> fsnode) list \<Rightarrow> path \<Rightarrow> (path \<times> (fs_error + nat)) list" where
  "treeFiles (RegularFile st bytes) p = [(p, st)]"
| "treeFiles (Directory entries) p = listFiles entries p"
| "treeFiles (UnreadableDirectory err) p = []"
| "treeFiles Other p = []"
| "listFiles [] p = []"
| "listFiles ((name, node) # rest) p = treeFiles node (p @ [name]) @ listFiles rest p"

text \<open>
  A path is ignored as a directory when the ignore predicate matches its relative path
  bare or with a trailing slash.
\<close>

definition ignoredDir :: "(jsstring \<Rightarrow> bool) \<Rightarrow> path \<Rightarrow> path \<Rightarrow> bool" where
  "ignoredDir ig baseDir d \<longleftrightarrow>
     ig (path_relative baseDir d) \<or> ig (path_relative baseDir d @ js ''/'')"

text \<open>The directories strictly between \<open>dir\<close> and a path \<open>f\<close> below it.\<close>

definition dirsBetween :: "path \<Rightarrow> path \<Rightarrow> path list" where
  "dirsBetween dir f = map (\<lambda>k. take k f) [Suc (length dir) ..< length f]"

text \<open>
  A file is wanted when its relative path is not ignored, no directory between the root
  of the walk and the file is ignored, and its size is at most \<open>MAX_FILE_SIZE\<close>.
\<close>

definition wanted ::
  "(jsstring \<Rightarrow> bool) \<Rightarrow> path \<Rightarrow> path \<Rightarrow> path \<times> (fs_error + nat) \<Rightarrow> bool" where
  "wanted ig baseDir dir x \<longleftrightarrow>
     \<not> ig (path_relative baseDir (fst x)) \<and>
     list_all (\<lambda>d. \<not> ignoredDir ig baseDir d) (dirsBetween dir (fst x)) \<and>
     (case snd x of Inl err \<Rightarrow> False | Inr n \<Rightarrow> n \<le> MAX_FILE_SIZE)"

text \<open>A directory is read by the walk only if neither it nor a directory above it,
  below the root of the walk, is ignored.\<close>

definition reached :: "(jsstring \<Rightarrow> bool) \<Rightarrow> path \<Rightarrow> path \<Rightarrow> path \<Rightarrow> bool" where
  "reached ig baseDir dir d \<longleftrightarrow>
     take (length dir) d = dir \<and>
     list_all (\<lambda>k. \<not> ignoredDir ig baseDir (take k d)) [Suc (length dir) ..< Suc (length d)]"

text \<open>A tree in which every directory can be listed and every file can be examined.\<close>

fun readable :: "fsnode \<Rightarrow> bool"
and readableEntries :: "(jsstring \<times> fsnode) list \<Rightarrow> bool" where
  "readable (RegularFile st bytes) = (case st of Inl err \<Rightarrow> False | Inr n \<Rightarrow> True)"
| "readable (Directory entries) = readableEntries entries"
| "readable (UnreadableDirectory err) = False"
| "readable Other = True"
| "readableEntries [] = True"
| "readableEntries ((name, node) # rest) = (readable node \<and> readableEntries rest)"

section \<open>Sample inputs\<close>

definition small_entry :: FileEntry where
  "small_entry = \<lparr>file_path = js ''a.txt'', file_hash = replicate 64 0x30, content = js ''hello''\<rparr>"

definition other_entry :: FileEntry where
  "other_entry = \<lparr>file_path = js ''b.txt'', file_hash = replicate 64 0x31, content = js ''world!''\<rparr>"

definition huge_content :: jsstring where
  "huge_content = replicate (4 * 1024 * 1024) 0x61"

definition huge_entry :: FileEntry where
  "huge_entry = \<lparr>file_path = js ''big.txt'', file_hash = replicate 64 0x32, content = huge_content\<rparr>"

text \<open>A runtime for evaluating the definitions: it decodes ASCII bytes, and its digest
  is a fixed string of 64 hexadecimal digits.\<close>

definition sample_runtime :: node_runtime where
  "sample_runtime = \<lparr>toString_utf8 = map ucast, sha256_hex = (\<lambda>s. replicate 64 0x30)\<rparr>"

text \<open>The working directory \<^verbatim>\<open>/work\<close> and an ignore predicate for \<^verbatim>\<open>node_modules\<close>.\<close>

definition sample_cwd :: path where
  "sample_cwd = [js ''work'']"

definition sample_ignores :: "jsstring \<Rightarrow> bool" where
  "sample_ignores p \<longleftrightarrow> p = js ''node_modules''"

text \<open>A tree with a text file, a binary file, an empty file, a file over the size limit,
  a source directory and an ignored directory that cannot be listed below.\<close>

definition sample_tree :: fsnode where
  "sample_tree = Directory
     [(js ''a.txt'', RegularFile (Inr 5) (Inr [0x68, 0x65, 0x6C, 0x6C, 0x6F])),
      (js ''b.bin'', RegularFile (Inr 3) (Inr [0x41, 0x00, 0x42])),
      (js ''empty.txt'', RegularFile (Inr 2) (Inr [0x20, 0x0A])),
      (js ''big.log'', RegularFile (Inr 600000) (Inl EACCES)),
      (js ''node_modules'', Directory
         [(js ''x.js'', RegularFile (Inr 2) (Inr [0x78, 0x3B])),
          (js ''locked'', UnreadableDirectory EACCES)]),
      (js ''src'', Directory
         [(js ''m.ts'', RegularFile (Inr 2) (Inr [0x6D, 0x3B]))])]"

text \<open>A tree with a readable file and a directory that cannot be listed.\<close>

definition locked_tree :: fsnode where
  "locked_tree = Directory
     [(js ''a.txt'', RegularFile (Inr 5) (Inr [0x68, 0x65, 0x6C, 0x6C, 0x6F])),
      (js ''locked'', UnreadableDirectory EACCES)]"

text \<open>A server that rejects every request of more than one file with status 413 and
  accepts the others; its state counts the requests.\<close>

definition too_large :: axios_error where
  "too_large =
     \<lparr>code = Some (js ''ERR_BAD_REQUEST''),
      response = Some \<lparr>status = 413, data = None\<rparr>,
      message = js ''Request failed with status code 413''\<rparr>"

definition unauthorized :: axios_error where
  "unauthorized =
     \<lparr>code = Some (js ''ERR_BAD_REQUEST''),
      response = Some \<lparr>status = 401, data = None\<rparr>,
      message = js ''Request failed with status code 401''\<rparr>"

definition server_error :: axios_error where
  "server_error =
     \<lparr>code = Some (js ''ERR_BAD_RESPONSE''),
      response = Some \<lparr>status = 500, data = None\<rparr>,
      message = js ''Request failed with status code 500''\<rparr>"

definition ok_response :: http_response where
  "ok_response = \<lparr>status = 200, data = None\<rparr>"

definition one_file_server :: "nat remote" where
  "one_file_server n req =
     (if length (body req) > 1 then (Inl too_large, Suc n) else (Inr ok_response, Suc n))"

text \<open>A server that accepts its first request and fails from then on with status 500.\<close>

definition failing_server :: "nat remote" where
  "failing_server n req = (if n = 0 then (Inr ok_response, Suc n) else (Inl server_error, Suc n))"

definition expired_server :: "nat remote" where
  "expired_server n req = (Inl unauthorized, Suc n)"

definition sample_config :: config_file where
  "sample_config = Stored
     \<lparr>apiUrl = Some (js ''https://api.example''), token = Some (js ''secret''),
      user = Some \<lparr>user_id = 7, user_name = js ''ada'', user_email = js ''ada@example''\<rparr>,
      teamId = Some 3\<rparr>"

definition sample_world :: "nat world" where
  "sample_world =
     \<lparr>env_token = None, config = sample_config, server = 0, sent = [],
      cwd = sample_cwd, tree = sample_tree\<rparr>"

section \<open>Properties of batch construction\<close>

lemma entrySize_pos: "0 < entrySize entry"
  by (simp add: entrySize_def)

lemma batchSize_append: "batchSize (xs @ ys) = batchSize xs + batchSize ys"
  by (simp add: batchSize_def)

lemma batchSize_single: "batchSize [entry] = entrySize entry"
  by (simp add: batchSize_def)

lemma batchSize_member: "entry \<in> set batch \<Longrightarrow> entrySize entry \<le> batchSize batch"
  unfolding batchSize_def by (induction batch) auto

lemma batchLoop_concat:
  "batchLoop es bs cur sz = (bs', cur', sz') \<Longrightarrow> concat bs' @ cur' = concat bs @ cur @ es"
proof (induction es arbitrary: bs cur sz)
  case Nil
  then show ?case by simp
next
  case (Cons e es)
  show ?case
  proof (cases "length cur > 0 \<and> sz + entrySize e > MAX_BATCH_BYTES")
    case True
    with Cons.prems have "batchLoop es (bs @ [cur]) [e] (0 + entrySize e) = (bs', cur', sz')"
      by simp
    from Cons.IH [OF this] show ?thesis by simp
  next
    case False
    with Cons.prems have "batchLoop es bs (cur @ [e]) (sz + entrySize e) = (bs', cur', sz')"
      by auto
    from Cons.IH [OF this] show ?thesis by simp
  qed
qed

lemma batchLoop_nonempty:
  "batchLoop es bs cur sz = (bs', cur', sz') \<Longrightarrow> [] \<notin> set bs \<Longrightarrow> [] \<notin> set bs'"
proof (induction es arbitrary: bs cur sz)
  case Nil
  then show ?case by simp
next
  case (Cons e es)
  show ?case
  proof (cases "length cur > 0 \<and> sz + entrySize e > MAX_BATCH_BYTES")
    case True
    with Cons.prems(1)
    have step: "batchLoop es (bs @ [cur]) [e] (0 + entrySize e) = (bs', cur', sz')"
      by simp
    from True Cons.prems(2) have "[] \<notin> set (bs @ [cur])" by auto
    from Cons.IH [OF step this] show ?thesis .
  next
    case False
    with Cons.prems(1)
    have step: "batchLoop es bs (cur @ [e]) (sz + entrySize e) = (bs', cur', sz')"
      by auto
    from Cons.IH [OF step Cons.prems(2)] show ?thesis .
  qed
qed

text \<open>
  The loop invariant for the size bound: \<^verbatim>\<open>currentSize\<close> is the estimate of
  \<^verbatim>\<open>currentBatch\<close>, and the closed batches and the running batch are bounded.
\<close>

lemma batchLoop_bounded:
  "batchLoop es bs cur sz = (bs', cur', sz') \<Longrightarrow> sz = batchSize cur
     \<Longrightarrow> list_all bounded_batch bs \<Longrightarrow> cur = [] \<or> bounded_batch cur
     \<Longrightarrow> list_all bounded_batch bs' \<and> (cur' = [] \<or> bounded_batch cur')"
proof (induction es arbitrary: bs cur sz)
  case Nil
  then show ?case by simp
next
  case (Cons e es)
  have single: "bounded_batch [e]"
    by (simp add: bounded_batch_def batchSize_single) linarith
  show ?case
  proof (cases "length cur > 0 \<and> sz + entrySize e > MAX_BATCH_BYTES")
    case True
    with Cons.prems(1)
    have step: "batchLoop es (bs @ [cur]) [e] (0 + entrySize e) = (bs', cur', sz')"
      by simp
    from True Cons.prems(3,4) have closed: "list_all bounded_batch (bs @ [cur])"
      by auto
    show ?thesis
      by (rule Cons.IH [OF step _ closed]) (simp_all add: batchSize_single single)
  next
    case False
    with Cons.prems(1)
    have step: "batchLoop es bs (cur @ [e]) (sz + entrySize e) = (bs', cur', sz')"
      by auto
    have size: "sz + entrySize e = batchSize (cur @ [e])"
      using Cons.prems(2) by (simp add: batchSize_append batchSize_single)
    have "bounded_batch (cur @ [e])"
    proof (cases "cur = []")
      case True
      then show ?thesis using single by simp
    next
      case False
      with \<open>\<not> (length cur > 0 \<and> sz + entrySize e > MAX_BATCH_BYTES)\<close>
      have "sz + entrySize e \<le> MAX_BATCH_BYTES" by simp
      with size show ?thesis by (simp add: bounded_batch_def)
    qed
    then have running: "cur @ [e] = [] \<or> bounded_batch (cur @ [e])" by simp
    show ?thesis
      by (rule Cons.IH [OF step size Cons.prems(3) running])
  qed
qed

text \<open>The loop invariant for the isolation of an entry that is over the ceiling.\<close>

lemma batchLoop_isolated:
  "batchLoop es bs cur sz = (bs', cur', sz') \<Longrightarrow> sz = batchSize cur
     \<Longrightarrow> list_all isolated_batch bs \<Longrightarrow> cur = [] \<or> isolated_batch cur
     \<Longrightarrow> list_all isolated_batch bs' \<and> (cur' = [] \<or> isolated_batch cur')"
proof (induction es arbitrary: bs cur sz)
  case Nil
  then show ?case by simp
next
  case (Cons e es)
  have single: "isolated_batch [e]"
    by (simp add: isolated_batch_def)
  show ?case
  proof (cases "length cur > 0 \<and> sz + entrySize e > MAX_BATCH_BYTES")
    case True
    with Cons.prems(1)
    have step: "batchLoop es (bs @ [cur]) [e] (0 + entrySize e) = (bs', cur', sz')"
      by simp
    from True Cons.prems(3,4) have closed: "list_all isolated_batch (bs @ [cur])"
      by auto
    show ?thesis
      by (rule Cons.IH [OF step _ closed]) (simp_all add: batchSize_single single)
  next
    case False
    with Cons.prems(1)
    have step: "batchLoop es bs (cur @ [e]) (sz + entrySize e) = (bs', cur', sz')"
      by auto
    have size: "sz + entrySize e = batchSize (cur @ [e])"
      using Cons.prems(2) by (simp add: batchSize_append batchSize_single)
    have "isolated_batch (cur @ [e])"
    proof (cases "cur = []")
      case True
      then show ?thesis using single by simp
    next
      case False
      with \<open>\<not> (length cur > 0 \<and> sz + entrySize e > MAX_BATCH_BYTES)\<close>
      have "sz + entrySize e \<le> MAX_BATCH_BYTES" by simp
      with size have le: "batchSize (cur @ [e]) \<le> MAX_BATCH_BYTES" by simp
      have "entrySize x \<le> MAX_BATCH_BYTES" if "x \<in> set (cur @ [e])" for x
        using batchSize_member [OF that] le by linarith
      then show ?thesis
        unfolding isolated_batch_def list_all_iff by blast
    qed
    then have running: "cur @ [e] = [] \<or> isolated_batch (cur @ [e])" by simp
    show ?thesis
      by (rule Cons.IH [OF step size Cons.prems(3) running])
  qed
qed

lemma buildBatches_concat: "concat (buildBatches es) = es"
proof -
  obtain bs cur sz where loop: "batchLoop es [] [] 0 = (bs, cur, sz)"
    by (cases "batchLoop es [] [] 0") auto
  from batchLoop_concat [OF loop] have "concat bs @ cur = es" by simp
  with loop show ?thesis by (auto simp: buildBatches_def)
qed

lemma buildBatches_nonempty: "[] \<notin> set (buildBatches es)"
proof -
  obtain bs cur sz where loop: "batchLoop es [] [] 0 = (bs, cur, sz)"
    by (cases "batchLoop es [] [] 0") auto
  from batchLoop_nonempty [OF loop] have "[] \<notin> set bs" by simp
  with loop show ?thesis by (auto simp: buildBatches_def)
qed

lemma buildBatches_bounded: "list_all bounded_batch (buildBatches es)"
proof -
  obtain bs cur sz where loop: "batchLoop es [] [] 0 = (bs, cur, sz)"
    by (cases "batchLoop es [] [] 0") auto
  from batchLoop_bounded [OF loop]
  have "list_all bounded_batch bs \<and> (cur = [] \<or> bounded_batch cur)"
    by (simp add: batchSize_def)
  with loop show ?thesis by (auto simp: buildBatches_def)
qed

lemma buildBatches_isolated: "list_all isolated_batch (buildBatches es)"
proof -
  obtain bs cur sz where loop: "batchLoop es [] [] 0 = (bs, cur, sz)"
    by (cases "batchLoop es [] [] 0") auto
  from batchLoop_isolated [OF loop]
  have "list_all isolated_batch bs \<and> (cur = [] \<or> isolated_batch cur)"
    by (simp add: batchSize_def)
  with loop show ?thesis by (auto simp: buildBatches_def)
qed


lemma byteLength_ascii: "byteLength (replicate n 0x61) = n"
  by (induction n) simp_all

lemma entrySize_small: "entrySize small_entry = 174"
  by (simp add: entrySize_def small_entry_def js_def)

lemma entrySize_other: "entrySize other_entry = 175"
  by (simp add: entrySize_def other_entry_def js_def)

lemma entrySize_huge: "entrySize huge_entry = 4194475"
  by (simp add: entrySize_def huge_entry_def huge_content_def byteLength_ascii js_def)

lemma sample_batches:
  "buildBatches [small_entry, other_entry, huge_entry] = [[small_entry, other_entry], [huge_entry]]"
  by (simp add: buildBatches_def entrySize_small entrySize_other entrySize_huge
      MAX_BATCH_BYTES_def)

section \<open>The claims on batch construction\<close>

text \<open>
  C4. Batch construction is an order-preserving partition: the concatenation of the
  batches, in order, is the input sequence, so that no entry is dropped, duplicated or
  reordered, and no batch is empty.
\<close>

theorem batches_partition:
  "concat (buildBatches allEntries) = allEntries \<and> [] \<notin> set (buildBatches allEntries)"
  by (simp add: buildBatches_concat buildBatches_nonempty)

text \<open>
  C2. Every batch has an estimated size (the sum over its entries of the byte length of
  the content plus the overhead of the entry) of at most 4 MiB, unless it consists of
  one entry whose own estimate is over 4 MiB.
\<close>

theorem batch_size_bound:
  "\<forall>batch \<in> set (buildBatches allEntries).
     batchSize batch \<le> 4 * 1024 * 1024 \<or>
     (\<exists>entry. batch = [entry] \<and> entrySize entry > 4 * 1024 * 1024)"
proof
  fix batch
  assume "batch \<in> set (buildBatches allEntries)"
  with buildBatches_bounded [of allEntries] have "bounded_batch batch"
    by (simp add: list_all_iff)
  then show "batchSize batch \<le> 4 * 1024 * 1024 \<or>
     (\<exists>entry. batch = [entry] \<and> entrySize entry > 4 * 1024 * 1024)"
    by (auto simp: bounded_batch_def MAX_BATCH_BYTES_def split: list.splits)
qed

theorem batch_size_bound_witness:
  "[small_entry, other_entry] \<in> set (buildBatches [small_entry, other_entry, huge_entry]) \<and>
   batchSize [small_entry, other_entry] \<le> 4 * 1024 * 1024 \<and>
   [huge_entry] \<in> set (buildBatches [small_entry, other_entry, huge_entry]) \<and>
   entrySize huge_entry > 4 * 1024 * 1024"
proof -
  have m: "[small_entry, other_entry] \<in> set (buildBatches [small_entry, other_entry, huge_entry])"
    by (simp add: sample_batches)
  from batch_size_bound [of "[small_entry, other_entry, huge_entry]"] m
  have "batchSize [small_entry, other_entry] \<le> 4 * 1024 * 1024 \<or>
     (\<exists>entry. [small_entry, other_entry] = [entry] \<and> entrySize entry > 4 * 1024 * 1024)"
    by blast
  then have "batchSize [small_entry, other_entry] \<le> 4 * 1024 * 1024"
    by simp
  with m show ?thesis
    by (simp add: sample_batches entrySize_huge)
qed

text \<open>
  C3. An entry whose estimate alone is over 4 MiB is the only element of its batch: the
  batch of that one entry is among the batches, and every batch that contains the entry
  is that batch.
\<close>

theorem oversized_entry_isolated:
  "entry \<in> set allEntries \<Longrightarrow> entrySize entry > 4 * 1024 * 1024
     \<Longrightarrow> [entry] \<in> set (buildBatches allEntries) \<and>
         (\<forall>batch \<in> set (buildBatches allEntries). entry \<in> set batch \<longrightarrow> batch = [entry])"
proof -
  assume member: "entry \<in> set allEntries" and over: "entrySize entry > 4 * 1024 * 1024"
  have alone: "batch = [entry]"
    if "batch \<in> set (buildBatches allEntries)" and "entry \<in> set batch" for batch
  proof -
    from that(1) buildBatches_isolated [of allEntries] have "isolated_batch batch"
      by (simp add: list_all_iff)
    with that(2) over have "length batch = 1"
      by (auto simp: isolated_batch_def list_all_iff MAX_BATCH_BYTES_def)
    with that(2) show ?thesis
      by (cases batch) auto
  qed
  from member have "entry \<in> set (concat (buildBatches allEntries))"
    by (simp add: buildBatches_concat)
  then obtain batch where "batch \<in> set (buildBatches allEntries)" and "entry \<in> set batch"
    by auto
  with alone show ?thesis by blast
qed

theorem oversized_entry_isolated_witness:
  "huge_entry \<in> set [small_entry, other_entry, huge_entry] \<and>
   entrySize huge_entry > 4 * 1024 * 1024 \<and>
   [huge_entry] \<in> set (buildBatches [small_entry, other_entry, huge_entry]) \<and>
   huge_entry \<notin> set [small_entry, other_entry]"
proof -
  have m: "huge_entry \<in> set [small_entry, other_entry, huge_entry]" by simp
  have over: "entrySize huge_entry > 4 * 1024 * 1024" by (simp add: entrySize_huge)
  have first: "[small_entry, other_entry] \<in> set (buildBatches [small_entry, other_entry, huge_entry])"
    by (simp add: sample_batches)
  from oversized_entry_isolated [OF m over] first
  have "huge_entry \<in> set [small_entry, other_entry] \<longrightarrow> [small_entry, other_entry] = [huge_entry]"
    by blast
  then have "huge_entry \<notin> set [small_entry, other_entry]" by auto
  with oversized_entry_isolated [OF m over] m over show ?thesis by simp
qed


section \<open>Properties of the API client and of the submission loop\<close>


lemma onResponseError_no_response: "response_of (fst (onResponseError error file)) = None"
  by (simp add: onResponseError_def Let_def)

lemma api_post_no_response:
  "api_post srv u files w = (Inl err, w') \<Longrightarrow> response_of err = None"
proof -
  assume post: "api_post srv u files w = (Inl err, w')"
  obtain result s' where r: "srv (server w) (onRequest (env_token w) (config w) u files) = (result, s')"
    by (cases "srv (server w) (onRequest (env_token w) (config w) u files)") auto
  show ?thesis
  proof (cases result)
    case (Inl error)
    obtain e f where o: "onResponseError error (config w) = (e, f)"
      by (cases "onResponseError error (config w)") auto
    with post r Inl have "err = e"
      by (simp add: api_post_def Let_def)
    with onResponseError_no_response [of error "config w"] o show ?thesis by simp
  next
    case (Inr resp)
    with post r show ?thesis by (simp add: api_post_def Let_def)
  qed
qed

lemma api_post_sent:
  "map body (sent (snd (api_post srv u files w))) = map body (sent w) @ [files]"
  by (simp add: api_post_def Let_def onRequest_def split: prod.splits sum.splits)

lemma submitBatches_Cons:
  "submitBatches srv projectId (batch # rest) indexed w =
     (case api_post srv (CodebaseIndex projectId) batch w of
        (Inr resp, w1) \<Rightarrow> submitBatches srv projectId rest (indexed + length batch) w1
      | (Inl err, w1) \<Rightarrow> (Inl err, w1))"
proof -
  obtain r w1 where p: "api_post srv (CodebaseIndex projectId) batch w = (r, w1)"
    by (cases "api_post srv (CodebaseIndex projectId) batch w") auto
  show ?thesis
  proof (cases r)
    case (Inl err)
    with p have "response_of err = None" by (simp add: api_post_no_response)
    with p Inl show ?thesis by simp
  next
    case (Inr resp)
    with p show ?thesis by simp
  qed
qed

lemma submitBatches_append:
  "submitBatches srv projectId (xs @ ys) indexed w =
     (case submitBatches srv projectId xs indexed w of
        (Inr indexed', w') \<Rightarrow> submitBatches srv projectId ys indexed' w'
      | (Inl err, w') \<Rightarrow> (Inl err, w'))"
proof (induction xs arbitrary: indexed w)
  case Nil
  show ?case by simp
next
  case (Cons x xs)
  show ?case
    unfolding append_Cons submitBatches_Cons
    by (simp add: Cons.IH split: prod.splits sum.splits)
qed

lemma submitBatches_sent_ok:
  "submitBatches srv projectId xs indexed w = (Inr indexed', w')
     \<Longrightarrow> map body (sent w') = map body (sent w) @ xs"
proof (induction xs arbitrary: indexed w)
  case Nil
  then show ?case by simp
next
  case (Cons x xs)
  obtain r w1 where p: "api_post srv (CodebaseIndex projectId) x w = (r, w1)"
    by (cases "api_post srv (CodebaseIndex projectId) x w") auto
  from api_post_sent [of srv "CodebaseIndex projectId" x w] p
  have s1: "map body (sent w1) = map body (sent w) @ [x]" by simp
  show ?case
  proof (cases r)
    case (Inl err)
    with Cons.prems p show ?thesis by (simp add: submitBatches_Cons del: submitBatches.simps(2))
  next
    case (Inr resp)
    with Cons.prems p
    have "submitBatches srv projectId xs (indexed + length x) w1 = (Inr indexed', w')"
      by (simp add: submitBatches_Cons del: submitBatches.simps(2))
    from Cons.IH [OF this] s1 show ?thesis by simp
  qed
qed

text \<open>Whatever the server answers, the requests of a run are the batches of a prefix of
  the list, one request for each: no half of a batch is ever sent.\<close>

lemma submitBatches_sent_prefix:
  "\<exists>k \<le> length xs. map body (sent (snd (submitBatches srv projectId xs indexed w)))
      = map body (sent w) @ take k xs"
proof (induction xs arbitrary: indexed w)
  case Nil
  show ?case by simp
next
  case (Cons x xs)
  obtain r w1 where p: "api_post srv (CodebaseIndex projectId) x w = (r, w1)"
    by (cases "api_post srv (CodebaseIndex projectId) x w") auto
  from api_post_sent [of srv "CodebaseIndex projectId" x w] p
  have s1: "map body (sent w1) = map body (sent w) @ [x]" by simp
  show ?case
  proof (cases r)
    case (Inl err)
    with p s1 have "map body (sent (snd (submitBatches srv projectId (x # xs) indexed w)))
        = map body (sent w) @ take 1 (x # xs)"
      by (simp add: submitBatches_Cons del: submitBatches.simps(2))
    then show ?thesis by (intro exI [of _ 1]) simp
  next
    case (Inr resp)
    from Cons.IH [of "indexed + length x" w1] obtain k where
      k: "k \<le> length xs"
        "map body (sent (snd (submitBatches srv projectId xs (indexed + length x) w1)))
           = map body (sent w1) @ take k xs"
      by blast
    with p Inr s1 have "map body (sent (snd (submitBatches srv projectId (x # xs) indexed w)))
        = map body (sent w) @ take (Suc k) (x # xs)"
      by (simp add: submitBatches_Cons del: submitBatches.simps(2))
    with k(1) show ?thesis by (intro exI [of _ "Suc k"]) simp
  qed
qed


lemma clearAuth_cleared:
  "token (loadGlobalConfig (clearAuth file)) = None \<and>
   user (loadGlobalConfig (clearAuth file)) = None \<and>
   teamId (loadGlobalConfig (clearAuth file)) = None \<and>
   apiUrl (loadGlobalConfig (clearAuth file)) = apiUrl (loadGlobalConfig file)"
  by (simp add: clearAuth_def saveGlobalConfig_def Let_def)

section \<open>The claims on the API client and on the submission loop\<close>

text \<open>
  C10. When a request through the client is answered with status 401 (an answer was
  received, so the error code is not one of a refused connection or a failed name
  lookup), the client removes the token, the user and the team id from the global
  configuration file and throws the error \<^verbatim>\<open>Session expired\<close> with status 401. When the
  request fails in any other way, with another status or with no response, the
  configuration file is left as it was.
\<close>

theorem unauthorized_clears_auth:
  assumes "srv (server w) (onRequest (env_token w) (config w) u files) = (Inl error, s')"
  shows "(map_option status (response error) = Some 401 \<and>
          code error \<noteq> Some (js ''ECONNREFUSED'') \<and> code error \<noteq> Some (js ''ENOTFOUND'')
          \<longrightarrow> fst (api_post srv u files w) =
                Inl (ApiError (js ''Session expired. Please login again with: memo8 login'')
                       401 (case response error of None \<Rightarrow> None | Some r \<Rightarrow> data r)) \<and>
              config (snd (api_post srv u files w)) = clearAuth (config w) \<and>
              token (loadGlobalConfig (config (snd (api_post srv u files w)))) = None \<and>
              user (loadGlobalConfig (config (snd (api_post srv u files w)))) = None \<and>
              teamId (loadGlobalConfig (config (snd (api_post srv u files w)))) = None) \<and>
         (map_option status (response error) \<noteq> Some 401
          \<longrightarrow> config (snd (api_post srv u files w)) = config w)"
proof (intro conjI impI)
  assume h: "map_option status (response error) = Some 401 \<and>
          code error \<noteq> Some (js ''ECONNREFUSED'') \<and> code error \<noteq> Some (js ''ENOTFOUND'')"
  with assms show "fst (api_post srv u files w) =
      Inl (ApiError (js ''Session expired. Please login again with: memo8 login'') 401
             (case response error of None \<Rightarrow> None | Some r \<Rightarrow> data r))"
    by (simp add: api_post_def onResponseError_def Let_def)
  from h assms show c: "config (snd (api_post srv u files w)) = clearAuth (config w)"
    by (simp add: api_post_def onResponseError_def Let_def)
  from c show "token (loadGlobalConfig (config (snd (api_post srv u files w)))) = None"
    by (simp add: clearAuth_cleared)
  from c show "user (loadGlobalConfig (config (snd (api_post srv u files w)))) = None"
    by (simp add: clearAuth_cleared)
  from c show "teamId (loadGlobalConfig (config (snd (api_post srv u files w)))) = None"
    by (simp add: clearAuth_cleared)
next
  assume "map_option status (response error) \<noteq> Some 401"
  with assms show "config (snd (api_post srv u files w)) = config w"
    by (auto simp: api_post_def onResponseError_def Let_def)
qed

lemma sample_request:
  "onRequest (env_token sample_world) (config sample_world) u files =
     \<lparr>url = u, authorization = Some (js ''Bearer secret''), x_team_id = Some 3, body = files\<rparr>"
  by (simp add: onRequest_def sample_world_def sample_config_def getToken_def getTeamId_def js_def)

theorem unauthorized_clears_auth_witness:
  "expired_server (server sample_world)
     (onRequest (env_token sample_world) (config sample_world) (CodebaseIndex 1) [small_entry])
     = (Inl unauthorized, 1) \<and>
   map_option status (response unauthorized) = Some 401 \<and>
   code unauthorized \<noteq> Some (js ''ECONNREFUSED'') \<and>
   code unauthorized \<noteq> Some (js ''ENOTFOUND'') \<and>
   token (loadGlobalConfig (config sample_world)) = Some (js ''secret'') \<and>
   token (loadGlobalConfig
     (config (snd (api_post expired_server (CodebaseIndex 1) [small_entry] sample_world)))) = None \<and>
   teamId (loadGlobalConfig
     (config (snd (api_post expired_server (CodebaseIndex 1) [small_entry] sample_world)))) = None"
proof -
  have answer: "expired_server (server sample_world)
     (onRequest (env_token sample_world) (config sample_world) (CodebaseIndex 1) [small_entry])
     = (Inl unauthorized, 1)"
    by (simp add: expired_server_def sample_world_def)
  have st: "map_option status (response unauthorized) = Some 401"
    by (simp add: unauthorized_def)
  have c1: "code unauthorized \<noteq> Some (js ''ECONNREFUSED'')"
    by (simp add: unauthorized_def js_def)
  have c2: "code unauthorized \<noteq> Some (js ''ENOTFOUND'')"
    by (simp add: unauthorized_def js_def)
  have before: "token (loadGlobalConfig (config sample_world)) = Some (js ''secret'')"
    by (simp add: sample_world_def sample_config_def)
  from unauthorized_clears_auth
         [of expired_server sample_world "CodebaseIndex 1" "[small_entry]" unauthorized 1]
       st c1 c2 answer
  have after: "token (loadGlobalConfig
       (config (snd (api_post expired_server (CodebaseIndex 1) [small_entry] sample_world)))) = None"
     "teamId (loadGlobalConfig
       (config (snd (api_post expired_server (CodebaseIndex 1) [small_entry] sample_world)))) = None"
    by blast+
  from answer st c1 c2 before after show ?thesis
    by (intro conjI)
qed

text \<open>
  C1. A server answers a batch of two entries with status 413. The response interceptor
  turns the rejection into an \<^verbatim>\<open>ApiError\<close>, which has a property \<^verbatim>\<open>status\<close> and no
  property \<^verbatim>\<open>response\<close>; the handler of the submission loop reads
  \<^verbatim>\<open>err.response?.status\<close>, finds \<^verbatim>\<open>undefined\<close> and throws the error again.
  The run sends the one request for the whole batch, sends neither half, and ends with
  the error.
\<close>

theorem split_on_413_not_taken:
  "fst (submitBatches one_file_server 1 [[small_entry, other_entry]] 0 sample_world) =
     Inl (ApiError (js ''Request failed with status code 413'') 413 None) \<and>
   map body (sent (snd (submitBatches one_file_server 1 [[small_entry, other_entry]] 0
     sample_world))) = [[small_entry, other_entry]]"
  by (simp add: api_post_def onRequest_def one_file_server_def too_large_def
      onResponseError_def Let_def sample_world_def js_def)

text \<open>
  C8. When the batches before batch \<open>i\<close> have been accepted and the submission of batch
  \<open>i\<close> fails with an error that is not a rejection with status 413 of a batch of more
  than one entry, the run ends with that error: the requests sent are one for each of
  the batches up to batch \<open>i\<close>, in order, and none for a later batch.
\<close>

theorem failure_aborts_run:
  assumes "submitBatches srv projectId before indexed w = (Inr indexed1, w1)"
    and "api_post srv (CodebaseIndex projectId) batch w1 = (Inl err, w2)"
    and "\<not> (status_of err = Some 413 \<and> length batch > 1)"
  shows "submitBatches srv projectId (before @ batch # after) indexed w = (Inl err, w2) \<and>
         map body (sent w2) = map body (sent w) @ before @ [batch]"
proof -
  from assms(1,2)
  have "submitBatches srv projectId (before @ batch # after) indexed w = (Inl err, w2)"
    by (simp add: submitBatches_append submitBatches_Cons del: submitBatches.simps(2))
  moreover from submitBatches_sent_ok [OF assms(1)]
  have "map body (sent w1) = map body (sent w) @ before" .
  moreover from api_post_sent [of srv "CodebaseIndex projectId" batch w1] assms(2)
  have "map body (sent w2) = map body (sent w1) @ [batch]" by simp
  ultimately show ?thesis by simp
qed

theorem failure_aborts_run_witness:
  "fst (submitBatches failing_server 1 [[small_entry]] 0 sample_world) = Inr 1 \<and>
   fst (api_post failing_server (CodebaseIndex 1) [other_entry]
         (snd (submitBatches failing_server 1 [[small_entry]] 0 sample_world)))
     = Inl (ApiError (js ''Request failed with status code 500'') 500 None) \<and>
   fst (submitBatches failing_server 1 ([[small_entry]] @ [other_entry] # [[huge_entry]]) 0
         sample_world)
     = Inl (ApiError (js ''Request failed with status code 500'') 500 None) \<and>
   map body (sent (snd (submitBatches failing_server 1
       ([[small_entry]] @ [other_entry] # [[huge_entry]]) 0 sample_world)))
     = [[small_entry], [other_entry]]"
proof -
  define w1 where "w1 = snd (submitBatches failing_server 1 [[small_entry]] 0 sample_world)"
  define w2 where "w2 = snd (api_post failing_server (CodebaseIndex 1) [other_entry] w1)"
  define err where "err = ApiError (js ''Request failed with status code 500'') 500 None"
  have s1: "server w1 = 1" and l1: "sent sample_world = []"
    by (simp_all add: w1_def api_post_def failing_server_def sample_world_def Let_def)
  have a: "submitBatches failing_server 1 [[small_entry]] 0 sample_world = (Inr 1, w1)"
    by (simp add: w1_def api_post_def failing_server_def sample_world_def Let_def)
  have b: "api_post failing_server (CodebaseIndex 1) [other_entry] w1 = (Inl err, w2)"
    using s1
    by (simp add: w2_def err_def api_post_def failing_server_def server_error_def
        onResponseError_def Let_def js_def)
  have c: "\<not> (status_of err = Some 413 \<and> length [other_entry] > 1)"
    by simp
  from failure_aborts_run [OF a b c, of "[[huge_entry]]"] l1
  have r: "submitBatches failing_server 1 ([[small_entry]] @ [other_entry] # [[huge_entry]]) 0
             sample_world = (Inl err, w2)"
    and l: "map body (sent w2) = [[small_entry], [other_entry]]"
    by simp_all
  have g1: "fst (submitBatches failing_server 1 [[small_entry]] 0 sample_world) = Inr 1"
    by (simp only: a fst_conv)
  have g2: "fst (api_post failing_server (CodebaseIndex 1) [other_entry] w1) = Inl err"
    by (simp only: b fst_conv)
  have g3: "fst (submitBatches failing_server 1 ([[small_entry]] @ [other_entry] # [[huge_entry]])
              0 sample_world) = Inl err"
    by (simp only: r fst_conv)
  have g4: "map body (sent (snd (submitBatches failing_server 1
              ([[small_entry]] @ [other_entry] # [[huge_entry]]) 0 sample_world)))
            = [[small_entry], [other_entry]]"
    by (simp only: r snd_conv l)
  from g1 g2 g3 g4 show ?thesis
    unfolding w1_def err_def by (intro conjI)
qed



section \<open>Properties of the directory walk\<close>

lemma treeFiles_below:
  "x \<in> set (treeFiles node p) \<Longrightarrow>
     take (length p) (fst x) = p \<and> (isDirectory node \<longrightarrow> length p < length (fst x))"
  "x \<in> set (listFiles entries p) \<Longrightarrow>
     take (length p) (fst x) = p \<and> length p < length (fst x)"
proof (induction node p and entries p rule: treeFiles_listFiles.induct)
  case (6 name node rest p)
  from "6.prems" consider "x \<in> set (treeFiles node (p @ [name]))" | "x \<in> set (listFiles rest p)"
    by auto
  then show ?case
  proof cases
    case 1
    from "6.IH"(1) [OF 1] have t: "take (Suc (length p)) (fst x) = p @ [name]"
      by simp
    then have "length (take (Suc (length p)) (fst x)) = Suc (length p)"
      by simp
    then have len: "length p < length (fst x)"
      by simp
    from t have "take (length p) (take (Suc (length p)) (fst x)) = take (length p) (p @ [name])"
      by simp
    then have "take (length p) (fst x) = p"
      by (simp add: min_def)
    with len show ?thesis by simp
  next
    case 2
    from "6.IH"(2) [OF 2] show ?thesis .
  qed
qed simp_all

lemma dirsBetween_file: "dirsBetween dir (dir @ [name]) = []"
  by (simp add: dirsBetween_def)

lemma dirsBetween_step:
  assumes "take (Suc (length dir)) f = dir @ [name]" and "Suc (length dir) < length f"
  shows "dirsBetween dir f = (dir @ [name]) # dirsBetween (dir @ [name]) f"
proof -
  from assms(2) have "[Suc (length dir) ..< length f]
      = Suc (length dir) # [Suc (Suc (length dir)) ..< length f]"
    by (simp add: upt_conv_Cons)
  with assms(1) show ?thesis
    by (simp add: dirsBetween_def)
qed

lemma wanted_file:
  "wanted ig baseDir dir (dir @ [name], st) \<longleftrightarrow>
     \<not> ig (path_relative baseDir (dir @ [name])) \<and>
     (case st of Inl err \<Rightarrow> False | Inr n \<Rightarrow> n \<le> MAX_FILE_SIZE)"
  by (simp add: wanted_def dirsBetween_file)

lemma wanted_below:
  assumes "x \<in> set (treeFiles node (dir @ [name]))" and "isDirectory node"
  shows "wanted ig baseDir dir x \<longleftrightarrow>
     \<not> ignoredDir ig baseDir (dir @ [name]) \<and> wanted ig baseDir (dir @ [name]) x"
proof -
  from treeFiles_below(1) [OF assms(1)] assms(2)
  have "take (Suc (length dir)) (fst x) = dir @ [name]" and "Suc (length dir) < length (fst x)"
    by simp_all
  from dirsBetween_step [OF this] show ?thesis
    by (auto simp: wanted_def)
qed

lemma filter_wanted_directory:
  assumes "isDirectory node"
  shows "filter (wanted ig baseDir dir) (treeFiles node (dir @ [name])) =
     (if ignoredDir ig baseDir (dir @ [name]) then []
      else filter (wanted ig baseDir (dir @ [name])) (treeFiles node (dir @ [name])))"
proof (cases "ignoredDir ig baseDir (dir @ [name])")
  case True
  then have "\<forall>x \<in> set (treeFiles node (dir @ [name])). \<not> wanted ig baseDir dir x"
    using wanted_below [OF _ assms] by blast
  with True show ?thesis by simp
next
  case False
  then have "filter (wanted ig baseDir dir) (treeFiles node (dir @ [name])) =
      filter (wanted ig baseDir (dir @ [name])) (treeFiles node (dir @ [name]))"
    using wanted_below [OF _ assms] by (intro filter_cong) auto
  with False show ?thesis by simp
qed

lemma treeFiles_not_file_or_dir:
  "\<not> isDirectory node \<Longrightarrow> \<not> isFile node \<Longrightarrow> treeFiles node p = []"
  by (cases node) simp_all

lemma treeFiles_file:
  "isFile node \<Longrightarrow> treeFiles node p = [(p, statSync node)]"
  by (cases node) simp_all


lemma filter_wanted_ignored:
  assumes "ig (path_relative baseDir (dir @ [name]))"
  shows "filter (wanted ig baseDir dir) (treeFiles node (dir @ [name])) = []"
proof (cases "isDirectory node")
  case True
  with assms show ?thesis
    by (simp add: filter_wanted_directory ignoredDir_def)
next
  case False
  show ?thesis
  proof (cases "isFile node")
    case True
    with assms show ?thesis
      by (simp add: treeFiles_file wanted_file)
  next
    case no_file: False
    with False show ?thesis
      by (simp add: treeFiles_not_file_or_dir)
  qed
qed

lemma walk_files:
  "walkDirectory node dir ig baseDir = (calls, Inr files) \<Longrightarrow>
     files = map fst (filter (wanted ig baseDir dir) (treeFiles node dir))"
  "walkEntries entries dir ig baseDir acc = (calls, Inr out) \<Longrightarrow>
     out = acc @ map fst (filter (wanted ig baseDir dir) (listFiles entries dir))"
proof (induction node dir ig baseDir and entries dir ig baseDir acc
    arbitrary: calls files and calls out rule: walkDirectory_walkEntries.induct)
  case (1 entries dir ig baseDir)
  obtain c r where w: "walkEntries entries dir ig baseDir [] = (c, r)"
    by (cases "walkEntries entries dir ig baseDir []") auto
  with "1.prems" have "r = Inr files" by simp
  with w "1.IH" [of c files] show ?case by simp
next
  case (6 name node rest dir ig baseDir acc)
  let ?full = "path_join dir name"
  let ?rel = "path_relative baseDir ?full"
  let ?W = "wanted ig baseDir dir"
  have full: "?full = dir @ [name]" by (simp add: path_join_def)
  show ?case
  proof (cases "ig ?rel")
    case True
    with "6.prems" have "walkEntries rest dir ig baseDir acc = (calls, Inr out)"
      by (simp add: Let_def)
    from "6.IH"(1) [OF refl refl True this]
    have "out = acc @ map fst (filter ?W (listFiles rest dir))" .
    moreover from True have "filter ?W (treeFiles node (dir @ [name])) = []"
      by (simp add: filter_wanted_ignored full)
    ultimately show ?thesis by simp
  next
    case not_ignored: False
    show ?thesis
    proof (cases "isDirectory node")
      case True
      show ?thesis
      proof (cases "ig (?rel @ js ''/'')")
        case slash: True
        with not_ignored True "6.prems"
        have "walkEntries rest dir ig baseDir acc = (calls, Inr out)"
          by (simp add: Let_def)
        from "6.IH"(4) [OF refl refl not_ignored True _ this] slash
        have "out = acc @ map fst (filter ?W (listFiles rest dir))" by simp
        moreover from slash have "ignoredDir ig baseDir (dir @ [name])"
          by (simp add: ignoredDir_def full)
        then have "filter ?W (treeFiles node (dir @ [name])) = []"
          using True by (simp add: filter_wanted_directory)
        ultimately show ?thesis by simp
      next
        case no_slash: False
        obtain c1 r1 where w1: "walkDirectory node ?full ig baseDir = (c1, r1)"
          by (cases "walkDirectory node ?full ig baseDir") auto
        show ?thesis
        proof (cases r1)
          case (Inl err)
          with not_ignored True no_slash w1 "6.prems" show ?thesis
            by (simp add: Let_def)
        next
          case (Inr found)
          obtain c2 r2 where w2: "walkEntries rest dir ig baseDir (acc @ found) = (c2, r2)"
            by (cases "walkEntries rest dir ig baseDir (acc @ found)") auto
          with not_ignored True no_slash w1 Inr "6.prems" have r2: "r2 = Inr out"
            by (simp add: Let_def)
          from "6.IH"(2) [OF refl refl not_ignored True no_slash, of c1 found] w1 Inr
          have found: "found = map fst (filter (wanted ig baseDir ?full) (treeFiles node ?full))"
            by simp
          from "6.IH"(3) [OF refl refl not_ignored True no_slash w1 [symmetric] Inr, of c2 out]
            w2 r2
          have "out = (acc @ found) @ map fst (filter ?W (listFiles rest dir))" by simp
          moreover from not_ignored no_slash have "\<not> ignoredDir ig baseDir (dir @ [name])"
            by (simp add: ignoredDir_def full)
          then have "filter ?W (treeFiles node (dir @ [name])) =
              filter (wanted ig baseDir (dir @ [name])) (treeFiles node (dir @ [name]))"
            using True by (simp add: filter_wanted_directory)
          ultimately show ?thesis using found by (simp add: full)
        qed
      qed
    next
      case no_dir: False
      show ?thesis
      proof (cases "isFile node")
        case True
        show ?thesis
        proof (cases "statSync node")
          case (Inl err)
          with not_ignored no_dir True "6.prems" show ?thesis
            by (simp add: Let_def)
        next
          case (Inr n)
          let ?acc = "if n \<le> MAX_FILE_SIZE then acc @ [?full] else acc"
          obtain c2 r2 where w2: "walkEntries rest dir ig baseDir ?acc = (c2, r2)"
            by (cases "walkEntries rest dir ig baseDir ?acc") auto
          with not_ignored no_dir True Inr "6.prems" have r2: "r2 = Inr out"
            by (simp add: Let_def)
          from "6.IH"(5) [OF refl refl not_ignored no_dir True Inr, of c2 out] w2 r2
          have "out = ?acc @ map fst (filter ?W (listFiles rest dir))" by simp
          moreover from True Inr not_ignored
          have "map fst (filter ?W (treeFiles node (dir @ [name]))) =
              (if n \<le> MAX_FILE_SIZE then [dir @ [name]] else [])"
            by (simp add: treeFiles_file wanted_file full)
          ultimately show ?thesis by (simp add: full)
        qed
      next
        case no_file: False
        with not_ignored no_dir "6.prems"
        have "walkEntries rest dir ig baseDir acc = (calls, Inr out)"
          by (simp add: Let_def)
        from "6.IH"(6) [OF refl refl not_ignored no_dir no_file this]
        have "out = acc @ map fst (filter ?W (listFiles rest dir))" .
        moreover from no_dir no_file have "treeFiles node (dir @ [name]) = []"
          by (simp add: treeFiles_not_file_or_dir)
        ultimately show ?thesis by simp
      qed
    qed
  qed
qed simp_all


lemma reached_self: "reached ig baseDir dir dir"
  by (simp add: reached_def)

lemma reached_step:
  assumes "reached ig baseDir (dir @ [name]) d" and "\<not> ignoredDir ig baseDir (dir @ [name])"
  shows "reached ig baseDir dir d \<and> length dir < length d"
proof -
  from assms(1) have t: "take (Suc (length dir)) d = dir @ [name]"
    and below: "list_all (\<lambda>k. \<not> ignoredDir ig baseDir (take k d))
                  [Suc (Suc (length dir)) ..< Suc (length d)]"
    by (simp_all add: reached_def)
  from t have "length (take (Suc (length dir)) d) = Suc (length dir)" by simp
  then have len: "length dir < length d" by simp
  from t have "take (length dir) (take (Suc (length dir)) d) = take (length dir) (dir @ [name])"
    by simp
  then have pre: "take (length dir) d = dir" by (simp add: min_def)
  from len have "[Suc (length dir) ..< Suc (length d)]
      = Suc (length dir) # [Suc (Suc (length dir)) ..< Suc (length d)]"
    by (simp add: upt_conv_Cons)
  with t below assms(2) pre len show ?thesis
    by (simp add: reached_def)
qed

lemma walk_calls:
  "Readdir d \<in> set (fst (walkDirectory node dir ig baseDir)) \<Longrightarrow> reached ig baseDir dir d"
  "Readdir d \<in> set (fst (walkEntries entries dir ig baseDir acc)) \<Longrightarrow>
     reached ig baseDir dir d \<and> length dir < length d"
proof (induction node dir ig baseDir and entries dir ig baseDir acc
    rule: walkDirectory_walkEntries.induct)
  case (1 entries dir ig baseDir)
  then show ?case
    by (auto simp: reached_self split: prod.splits)
next
  case (6 name node rest dir ig baseDir acc)
  let ?full = "path_join dir name"
  let ?rel = "path_relative baseDir ?full"
  have full: "?full = dir @ [name]" by (simp add: path_join_def)
  show ?case
  proof (cases "ig ?rel")
    case True
    with "6.prems" have "Readdir d \<in> set (fst (walkEntries rest dir ig baseDir acc))"
      by (simp add: Let_def)
    from "6.IH"(1) [OF refl refl True this] show ?thesis .
  next
    case not_ignored: False
    show ?thesis
    proof (cases "isDirectory node")
      case True
      show ?thesis
      proof (cases "ig (?rel @ js ''/'')")
        case slash: True
        with not_ignored True "6.prems"
        have "Readdir d \<in> set (fst (walkEntries rest dir ig baseDir acc))"
          by (simp add: Let_def)
        from "6.IH"(4) [OF refl refl not_ignored True _ this] slash show ?thesis by simp
      next
        case no_slash: False
        from not_ignored no_slash have open_dir: "\<not> ignoredDir ig baseDir (dir @ [name])"
          by (simp add: ignoredDir_def full)
        obtain c1 r1 where w1: "walkDirectory node ?full ig baseDir = (c1, r1)"
          by (cases "walkDirectory node ?full ig baseDir") auto
        have inner: "reached ig baseDir dir d \<and> length dir < length d" if "Readdir d \<in> set c1"
        proof -
          from that w1 have "Readdir d \<in> set (fst (walkDirectory node ?full ig baseDir))"
            by simp
          from "6.IH"(2) [OF refl refl not_ignored True no_slash this]
          have "reached ig baseDir (dir @ [name]) d" by (simp add: full)
          from reached_step [OF this open_dir] show ?thesis .
        qed
        show ?thesis
        proof (cases r1)
          case (Inl err)
          with not_ignored True no_slash w1 "6.prems" have "Readdir d \<in> set c1"
            by (simp add: Let_def)
          with inner show ?thesis .
        next
          case (Inr found)
          obtain c2 r2 where w2: "walkEntries rest dir ig baseDir (acc @ found) = (c2, r2)"
            by (cases "walkEntries rest dir ig baseDir (acc @ found)") auto
          with not_ignored True no_slash w1 Inr "6.prems"
          consider "Readdir d \<in> set c1" | "Readdir d \<in> set c2"
            by (auto simp: Let_def)
          then show ?thesis
          proof cases
            case 1
            with inner show ?thesis .
          next
            case 2
            with w2 have "Readdir d \<in> set (fst (walkEntries rest dir ig baseDir (acc @ found)))"
              by simp
            from "6.IH"(3) [OF refl refl not_ignored True no_slash w1 [symmetric] Inr this]
            show ?thesis .
          qed
        qed
      qed
    next
      case no_dir: False
      show ?thesis
      proof (cases "isFile node")
        case True
        show ?thesis
        proof (cases "statSync node")
          case (Inl err)
          with not_ignored no_dir True "6.prems" show ?thesis
            by (simp add: Let_def)
        next
          case (Inr n)
          let ?acc = "if n \<le> MAX_FILE_SIZE then acc @ [?full] else acc"
          from not_ignored no_dir True Inr "6.prems"
          have "Readdir d \<in> set (fst (walkEntries rest dir ig baseDir ?acc))"
            by (auto simp: Let_def split: prod.splits)
          from "6.IH"(5) [OF refl refl not_ignored no_dir True Inr this] show ?thesis .
        qed
      next
        case no_file: False
        with not_ignored no_dir "6.prems"
        have "Readdir d \<in> set (fst (walkEntries rest dir ig baseDir acc))"
          by (simp add: Let_def)
        from "6.IH"(6) [OF refl refl not_ignored no_dir no_file this] show ?thesis .
      qed
    qed
  qed
qed (simp_all add: reached_self)

text \<open>On a tree in which every directory can be listed and every file examined, the
  walk returns a list of files.\<close>

lemma walk_total:
  "readable node \<Longrightarrow> isDirectory node \<Longrightarrow>
     \<exists>calls files. walkDirectory node dir ig baseDir = (calls, Inr files)"
  "readableEntries entries \<Longrightarrow>
     \<exists>calls files. walkEntries entries dir ig baseDir acc = (calls, Inr files)"
proof (induction node dir ig baseDir and entries dir ig baseDir acc
    rule: walkDirectory_walkEntries.induct)
  case (1 entries dir ig baseDir)
  then show ?case by (auto split: prod.splits)
next
  case (6 name node rest dir ig baseDir acc)
  let ?full = "path_join dir name"
  let ?rel = "path_relative baseDir ?full"
  from "6.prems" have rn: "readable node" and rr: "readableEntries rest" by simp_all
  show ?case
  proof (cases "ig ?rel")
    case True
    from "6.IH"(1) [OF refl refl True rr] True show ?thesis by (simp add: Let_def)
  next
    case not_ignored: False
    show ?thesis
    proof (cases "isDirectory node")
      case True
      show ?thesis
      proof (cases "ig (?rel @ js ''/'')")
        case slash: True
        from "6.IH"(4) [OF refl refl not_ignored True _ rr] slash not_ignored True
        show ?thesis by (simp add: Let_def)
      next
        case no_slash: False
        from "6.IH"(2) [OF refl refl not_ignored True no_slash rn True]
        obtain c1 found where w1: "walkDirectory node ?full ig baseDir = (c1, Inr found)"
          by blast
        from "6.IH"(3) [OF refl refl not_ignored True no_slash w1 [symmetric] refl rr]
        obtain c2 out where "walkEntries rest dir ig baseDir (acc @ found) = (c2, Inr out)"
          by blast
        with w1 not_ignored True no_slash show ?thesis by (simp add: Let_def)
      qed
    next
      case no_dir: False
      show ?thesis
      proof (cases "isFile node")
        case True
        with rn obtain n where st: "statSync node = Inr n"
          by (cases node) (auto split: sum.splits)
        from "6.IH"(5) [OF refl refl not_ignored no_dir True st rr]
        obtain c2 out where "walkEntries rest dir ig baseDir
            (if n \<le> MAX_FILE_SIZE then acc @ [?full] else acc) = (c2, Inr out)"
          by blast
        with not_ignored no_dir True st show ?thesis by (simp add: Let_def)
      next
        case no_file: False
        from "6.IH"(6) [OF refl refl not_ignored no_dir no_file rr] not_ignored no_dir no_file
        show ?thesis by (simp add: Let_def)
      qed
    qed
  qed
qed simp_all

lemma sample_walk:
  "walkDirectory sample_tree sample_cwd sample_ignores sample_cwd =
     ([Readdir [js ''work''],
       Stat [js ''work'', js ''a.txt''],
       Stat [js ''work'', js ''b.bin''],
       Stat [js ''work'', js ''empty.txt''],
       Stat [js ''work'', js ''big.log''],
       Readdir [js ''work'', js ''src''],
       Stat [js ''work'', js ''src'', js ''m.ts'']],
      Inr [[js ''work'', js ''a.txt''],
           [js ''work'', js ''b.bin''],
           [js ''work'', js ''empty.txt''],
           [js ''work'', js ''src'', js ''m.ts'']])"
  by (simp add: sample_tree_def sample_cwd_def sample_ignores_def path_join_def
      path_relative_def MAX_FILE_SIZE_def Let_def js_def)

lemma wanted_explicit:
  "wanted ig baseDir dir (f, st) \<longleftrightarrow>
     (\<exists>n. st = Inr n \<and> n \<le> 512 * 1024) \<and> \<not> ig (path_relative baseDir f) \<and>
     (\<forall>d \<in> set (dirsBetween dir f).
        \<not> ig (path_relative baseDir d) \<and> \<not> ig (path_relative baseDir d @ js ''/''))"
  by (cases st) (auto simp: wanted_def list_all_iff ignoredDir_def MAX_FILE_SIZE_def)

section \<open>The claims on the directory walk\<close>

text \<open>
  C7. When the walk returns, its result is the list, in listing order, of the regular
  files below the root whose relative path the ignore predicate does not match, whose
  size is at most 512 KiB, and that lie below no directory whose relative path the
  predicate matches bare or with a trailing slash. The walk lists no directory that is
  ignored in this way or that lies below such a directory.
\<close>

theorem walk_returns_wanted_files:
  assumes "walkDirectory root baseDir ig baseDir = (calls, Inr files)"
  shows "files = map fst (filter (wanted ig baseDir baseDir) (treeFiles root baseDir)) \<and>
     (\<forall>f. f \<in> set files \<longleftrightarrow>
        (\<exists>n. (f, Inr n) \<in> set (treeFiles root baseDir) \<and> n \<le> 512 * 1024 \<and>
           \<not> ig (path_relative baseDir f) \<and>
           (\<forall>d \<in> set (dirsBetween baseDir f).
              \<not> ig (path_relative baseDir d) \<and> \<not> ig (path_relative baseDir d @ js ''/'')))) \<and>
     (\<forall>d. Readdir d \<in> set calls \<longrightarrow>
        (\<forall>k. length baseDir < k \<and> k \<le> length d \<longrightarrow>
           \<not> ig (path_relative baseDir (take k d)) \<and>
           \<not> ig (path_relative baseDir (take k d) @ js ''/'')))"
proof (intro conjI allI impI)
  from walk_files(1) [OF assms]
  show eq: "files = map fst (filter (wanted ig baseDir baseDir) (treeFiles root baseDir))" .
  fix f
  show "f \<in> set files \<longleftrightarrow>
        (\<exists>n. (f, Inr n) \<in> set (treeFiles root baseDir) \<and> n \<le> 512 * 1024 \<and>
           \<not> ig (path_relative baseDir f) \<and>
           (\<forall>d \<in> set (dirsBetween baseDir f).
              \<not> ig (path_relative baseDir d) \<and> \<not> ig (path_relative baseDir d @ js ''/'')))"
  proof -
    have "f \<in> set files \<longleftrightarrow> (\<exists>st. (f, st) \<in> set (treeFiles root baseDir) \<and>
        wanted ig baseDir baseDir (f, st))"
      unfolding eq by force
    then show ?thesis
      unfolding wanted_explicit by blast
  qed
next
  fix d k
  assume "Readdir d \<in> set calls" and k: "length baseDir < k \<and> k \<le> length d"
  with assms have "Readdir d \<in> set (fst (walkDirectory root baseDir ig baseDir))"
    by simp
  from walk_calls(1) [OF this]
  have "list_all (\<lambda>k. \<not> ignoredDir ig baseDir (take k d)) [Suc (length baseDir) ..< Suc (length d)]"
    by (simp add: reached_def)
  then have "\<forall>j \<in> set [Suc (length baseDir) ..< Suc (length d)]. \<not> ignoredDir ig baseDir (take j d)"
    by (simp only: list_all_iff)
  moreover from k have "k \<in> set [Suc (length baseDir) ..< Suc (length d)]"
    by auto
  ultimately have "\<not> ignoredDir ig baseDir (take k d)"
    by blast
  then show "\<not> ig (path_relative baseDir (take k d))"
    and "\<not> ig (path_relative baseDir (take k d) @ js ''/'')"
    by (simp_all add: ignoredDir_def)
qed

theorem walk_returns_wanted_files_witness:
  "snd (walkDirectory sample_tree sample_cwd sample_ignores sample_cwd) =
     Inr [[js ''work'', js ''a.txt''], [js ''work'', js ''b.bin''],
          [js ''work'', js ''empty.txt''], [js ''work'', js ''src'', js ''m.ts'']] \<and>
   [[js ''work'', js ''a.txt''], [js ''work'', js ''b.bin''],
    [js ''work'', js ''empty.txt''], [js ''work'', js ''src'', js ''m.ts'']] =
     map fst (filter (wanted sample_ignores sample_cwd sample_cwd)
       (treeFiles sample_tree sample_cwd))"
proof -
  from walk_returns_wanted_files [OF sample_walk]
  have "[[js ''work'', js ''a.txt''], [js ''work'', js ''b.bin''],
    [js ''work'', js ''empty.txt''], [js ''work'', js ''src'', js ''m.ts'']] =
     map fst (filter (wanted sample_ignores sample_cwd sample_cwd)
       (treeFiles sample_tree sample_cwd))"
    by blast
  then show ?thesis
    by (simp only: sample_walk snd_conv simp_thms)
qed

text \<open>
  C6. The root holds a readable file and a directory that cannot be listed. The call of
  \<^verbatim>\<open>readdirSync\<close> on that directory raises, nothing in \<^verbatim>\<open>walkDirectory\<close> catches the
  exception, and the walk ends with the error: it returns no file, not even the
  readable one it had already found.
\<close>

theorem unreadable_directory_aborts_walk:
  "walkDirectory locked_tree sample_cwd (\<lambda>p. False) sample_cwd =
     ([Readdir [js ''work''],
       Stat [js ''work'', js ''a.txt''],
       Readdir [js ''work'', js ''locked'']],
      Inl EACCES)"
  by (simp add: locked_tree_def sample_cwd_def path_join_def Let_def)

lemma readEntries_admitted:
  "readEntries rt root baseDir filePaths allEntries =
     allEntries @ List.map_filter (admitFile rt root baseDir) filePaths"
  by (induction filePaths arbitrary: allEntries)
     (simp_all add: List.map_filter_simps split: option.splits)

lemma admitFile_unreadable:
  "readFileSync root baseDir filePath = Inl err \<Longrightarrow> admitFile rt root baseDir filePath = None"
  by (simp add: admitFile_def)

lemma sample_read:
  "readFileSync sample_tree sample_cwd [js ''work'', js ''a.txt''] = Inr [0x68, 0x65, 0x6C, 0x6C, 0x6F]"
  "readFileSync sample_tree sample_cwd [js ''work'', js ''b.bin''] = Inr [0x41, 0x00, 0x42]"
  "readFileSync sample_tree sample_cwd [js ''work'', js ''empty.txt''] = Inr [0x20, 0x0A]"
  "readFileSync sample_tree sample_cwd [js ''work'', js ''src'', js ''m.ts''] = Inr [0x6D, 0x3B]"
  by (simp_all add: readFileSync_def sample_tree_def sample_cwd_def js_def)

section \<open>The claim on the admission of files\<close>

text \<open>
  C5. For a candidate file that is read as the bytes \<open>buf\<close>: the file is excluded when
  the first 8192 bytes of \<open>buf\<close> contain a null byte; it is excluded when the text
  decoded from \<open>buf\<close> is empty after trimming; otherwise an entry is produced whose path
  is the path of the file relative to the root of the scan, whose hash is the SHA-256
  digest in hexadecimal of the decoded text, and whose content is the decoded text.
\<close>

theorem admission_filter:
  assumes "readFileSync root baseDir filePath = Inr buf"
  shows "admitFile rt root baseDir filePath =
     (if 0 \<in> set (take 8192 buf) then None
      else if trim (toString_utf8 rt buf) = [] then None
      else Some \<lparr>file_path = path_relative baseDir filePath,
                 file_hash = sha256_hex rt (toString_utf8 rt buf),
                 content = toString_utf8 rt buf\<rparr>)"
  using assms by (simp add: admitFile_def Let_def)

theorem admission_filter_witness:
  "readFileSync sample_tree sample_cwd [js ''work'', js ''a.txt''] = Inr [0x68, 0x65, 0x6C, 0x6C, 0x6F] \<and>
   admitFile sample_runtime sample_tree sample_cwd [js ''work'', js ''a.txt''] =
     Some \<lparr>file_path = js ''a.txt'', file_hash = replicate 64 0x30, content = js ''hello''\<rparr> \<and>
   readFileSync sample_tree sample_cwd [js ''work'', js ''b.bin''] = Inr [0x41, 0x00, 0x42] \<and>
   admitFile sample_runtime sample_tree sample_cwd [js ''work'', js ''b.bin''] = None"
proof -
  from admission_filter [OF sample_read(1), of sample_runtime]
  have a: "admitFile sample_runtime sample_tree sample_cwd [js ''work'', js ''a.txt''] =
     Some \<lparr>file_path = js ''a.txt'', file_hash = replicate 64 0x30, content = js ''hello''\<rparr>"
    by (simp add: sample_runtime_def trim_def isWhiteSpace_def path_relative_def sample_cwd_def
        js_def)
  from admission_filter [OF sample_read(2), of sample_runtime]
  have b: "admitFile sample_runtime sample_tree sample_cwd [js ''work'', js ''b.bin''] = None"
    by simp
  from a b sample_read(1,2) show ?thesis by (intro conjI)
qed

lemma sample_admit:
  "admitFile sample_runtime sample_tree sample_cwd [js ''work'', js ''a.txt''] =
     Some \<lparr>file_path = js ''a.txt'', file_hash = replicate 64 0x30, content = js ''hello''\<rparr>"
  "admitFile sample_runtime sample_tree sample_cwd [js ''work'', js ''b.bin''] = None"
  "admitFile sample_runtime sample_tree sample_cwd [js ''work'', js ''empty.txt''] = None"
  "admitFile sample_runtime sample_tree sample_cwd [js ''work'', js ''src'', js ''m.ts''] =
     Some \<lparr>file_path = js ''src/m.ts'', file_hash = replicate 64 0x30, content = js ''m;''\<rparr>"
  by (simp_all add: admitFile_def sample_read sample_runtime_def trim_def isWhiteSpace_def)
     (simp_all add: path_relative_def sample_cwd_def js_def)

text \<open>The walk and the reading loop on the sample tree: the text file and the source
  file are the two entries.\<close>

lemma sample_scan:
  "scanEntries sample_runtime sample_ignores
     (w\<lparr>cwd := sample_cwd, tree := sample_tree\<rparr>) =
     Inr [\<lparr>file_path = js ''a.txt'', file_hash = replicate 64 0x30, content = js ''hello''\<rparr>,
          \<lparr>file_path = js ''src/m.ts'', file_hash = replicate 64 0x30, content = js ''m;''\<rparr>]"
  by (simp add: scanEntries_def sample_walk sample_admit)

end
